theory Spec2Isabelle
  imports Main "HOL-Library.Char_ord" "HOL-Library.List_Lexorder" "HOL-Library.Product_Lexorder"
begin

section \<open>The stylesheet audit script (scripts/audit-important.py)\<close>

text \<open>
  The script scans CSS files line by line, recovers a selector for every declaration
  marked \<^verbatim>\<open>!important\<close>, classifies the selector, and builds a report grouped by
  category and by file.

  A Python \<^verbatim>\<open>str\<close> is modelled as a \<open>string\<close>: every \<open>char\<close> stands for one code
  point below 256. On these code points the character classes the script relies on
  (whitespace, letters under \<^verbatim>\<open>re.IGNORECASE\<close>) are the ones defined below.
  Python integers are \<open>int\<close>; lengths and counts are \<open>nat\<close>.
\<close>

subsection \<open>String primitives of Python used by the script\<close>

text \<open>\<^verbatim>\<open>str.isspace\<close> on one character, which is also the class \<^verbatim>\<open>\s\<close> of \<^verbatim>\<open>re\<close>.\<close>

definition is_space :: "char \<Rightarrow> bool" where
  "is_space c = (c \<in> set [CHR 0x09, CHR 0x0A, CHR 0x0B, CHR 0x0C, CHR 0x0D,
                           CHR 0x1C, CHR 0x1D, CHR 0x1E, CHR 0x1F, CHR 0x20,
                           CHR 0x85, CHR 0xA0])"

text \<open>\<^verbatim>\<open>s.strip()\<close>, \<^verbatim>\<open>s.rstrip(chars)\<close>.\<close>

definition strip :: "string \<Rightarrow> string" where
  "strip s = rev (dropWhile is_space (rev (dropWhile is_space s)))"

definition rstrip_chars :: "string \<Rightarrow> string \<Rightarrow> string" where
  "rstrip_chars chars s = rev (dropWhile (\<lambda>c. c \<in> set chars) (rev s))"

text \<open>\<^verbatim>\<open>s.startswith(p)\<close>, \<^verbatim>\<open>s.endswith(p)\<close>, \<^verbatim>\<open>p in s\<close>.\<close>

fun startswith :: "string \<Rightarrow> string \<Rightarrow> bool" where
  "startswith [] s = True"
| "startswith (p # ps) [] = False"
| "startswith (p # ps) (c # cs) = (p = c \<and> startswith ps cs)"

definition endswith :: "string \<Rightarrow> string \<Rightarrow> bool" where
  "endswith p s = startswith (rev p) (rev s)"

fun str_in :: "string \<Rightarrow> string \<Rightarrow> bool" where
  "str_in p [] = (p = [])"
| "str_in p (c # cs) = (startswith p (c # cs) \<or> str_in p cs)"

text \<open>\<^verbatim>\<open>s.count(c)\<close> and \<^verbatim>\<open>s.find(c)\<close> for a one-character \<open>c\<close>; \<open>find\<close> gives \<open>-1\<close>
  when the character does not occur.\<close>

definition count_char :: "char \<Rightarrow> string \<Rightarrow> int" where
  "count_char c s = int (length (filter (\<lambda>x. x = c) s))"

fun find_char :: "char \<Rightarrow> string \<Rightarrow> int" where
  "find_char c [] = -1"
| "find_char c (x # xs) =
     (if x = c then 0 else (let r = find_char c xs in if r < 0 then -1 else r + 1))"

text \<open>\<^verbatim>\<open>content.split('\n')\<close>: never empty, one more piece than there are newlines.\<close>

fun split_nl :: "string \<Rightarrow> string list" where
  "split_nl [] = [[]]"
| "split_nl (c # cs) =
     (if c = CHR 0x0A then [] # split_nl cs
      else (case split_nl cs of l # ls \<Rightarrow> (c # l) # ls | [] \<Rightarrow> [[c]]))"

text \<open>\<^verbatim>\<open>range(start, stop, -1)\<close>: \<open>start, start - 1, \<dots>, stop + 1\<close>.\<close>

definition range_down :: "int \<Rightarrow> int \<Rightarrow> int list" where
  "range_down start stop = rev [stop + 1 .. start]"

text \<open>A \<^verbatim>\<open>for\<close> loop left by \<^verbatim>\<open>break\<close> at the first element that yields a result.\<close>

fun first_some :: "('a \<Rightarrow> 'b option) \<Rightarrow> 'a list \<Rightarrow> 'b option" where
  "first_some f [] = None"
| "first_some f (x # xs) = (case f x of Some r \<Rightarrow> Some r | None \<Rightarrow> first_some f xs)"

subsection \<open>The regular expression of the declaration extractor\<close>

text \<open>
  The pattern \<^verbatim>\<open>([a-z-]+)\s*:\s*(.+?)!important\<close> is a sequence of character classes,
  each with a quantifier. \<^verbatim>\<open>re.search\<close> is a backtracking matcher: it tries the start
  positions from left to right, and at each position the repetition counts of every
  item in the order of its quantifier (greedy: longest first; lazy: shortest first),
  returning the first complete match.
\<close>

datatype quantifier = Once | Plus | Star | PlusLazy

type_synonym rx_item = "(char \<Rightarrow> bool) \<times> quantifier"

fun repetitions :: "quantifier \<Rightarrow> nat \<Rightarrow> nat list" where
  "repetitions Once n = (if 1 \<le> n then [1] else [])"
| "repetitions Plus n = rev [1 ..< Suc n]"
| "repetitions Star n = rev [0 ..< Suc n]"
| "repetitions PlusLazy n = [1 ..< Suc n]"

text \<open>\<open>rx_match its s\<close>: the texts the items consume when the sequence matches at the
  start of \<open>s\<close>, for the first choice of counts that succeeds.\<close>

primrec rx_match :: "rx_item list \<Rightarrow> string \<Rightarrow> string list option" where
  "rx_match [] s = Some []"
| "rx_match (it # its) s =
     first_some (\<lambda>k. map_option (\<lambda>gs. take k s # gs) (rx_match its (drop k s)))
       (repetitions (snd it) (length (takeWhile (fst it) s)))"

fun rx_search :: "rx_item list \<Rightarrow> string \<Rightarrow> string list option" where
  "rx_search its [] = rx_match its []"
| "rx_search its (c # cs) =
     (case rx_match its (c # cs) of Some gs \<Rightarrow> Some gs | None \<Rightarrow> rx_search its cs)"

text \<open>\<^verbatim>\<open>[a-z-]\<close> under \<^verbatim>\<open>re.IGNORECASE\<close>, the dot (anything but a newline), and a
  literal character compared without regard to case.\<close>

definition is_prop_char :: "char \<Rightarrow> bool" where
  "is_prop_char c =
     ((CHR ''a'' \<le> c \<and> c \<le> CHR ''z'') \<or> (CHR ''A'' \<le> c \<and> c \<le> CHR ''Z'') \<or> c = CHR ''-'')"

definition is_dot :: "char \<Rightarrow> bool" where
  "is_dot c = (c \<noteq> CHR 0x0A)"

definition ascii_lower :: "char \<Rightarrow> char" where
  "ascii_lower c =
     (if CHR ''A'' \<le> c \<and> c \<le> CHR ''Z'' then char_of (of_char c + (32::nat)) else c)"

definition lit_ignorecase :: "char \<Rightarrow> char \<Rightarrow> bool" where
  "lit_ignorecase p c = (ascii_lower c = ascii_lower p)"

definition important_pattern :: "rx_item list" where
  "important_pattern =
     [(is_prop_char, Plus), (is_space, Star), (\<lambda>c. c = CHR '':'', Once), (is_space, Star),
      (is_dot, PlusLazy)] @ map (\<lambda>p. (lit_ignorecase p, Once)) ''!important''"

text \<open>The two groups of a match: the property token and the value text.\<close>

definition search_important :: "string \<Rightarrow> (string \<times> string) option" where
  "search_important line =
     map_option (\<lambda>gs. (gs ! 0, gs ! 4)) (rx_search important_pattern line)"

subsection \<open>Classifier\<close>

definition mode_patterns :: "string list" where
  "mode_patterns =
     [''[data-shift-mode'', ''[data-gossamer-mode'', ''[data-chronologue-mode'',
      ''[data-mode='', ''.rt-mode-'', ''.rt-shift-mode'', ''.rt-gossamer-'',
      ''.rt-runtime-mode'']"

definition state_patterns :: "string list" where
  "state_patterns =
     [''.rt-selected'', ''.rt-non-selected'', ''.rt-search-result'', ''.rt-scene-is-open'',
      ''.rt-has-edits'', ''.rt-missing-when'', ''.rt-grade-'', ''.rt-global-fade'']"

definition validation_patterns :: "string list" where
  "validation_patterns =
     [''.rt-input-error'', ''.rt-setting-input-success'', ''.rt-setting-input-error'',
      ''.rt-flash-'']"

definition obsidian_patterns :: "string list" where
  "obsidian_patterns =
     [''.setting-item'', ''.modal-content'', ''.modal-title'', ''.dropdown'',
      ''.markdown-preview'']"

text \<open>\<^verbatim>\<open>any(p in selector for p in patterns)\<close>.\<close>

definition any_in :: "string list \<Rightarrow> string \<Rightarrow> bool" where
  "any_in patterns selector = list_ex (\<lambda>p. str_in p selector) patterns"

definition categorize_selector :: "string \<Rightarrow> string \<Rightarrow> string" where
  "categorize_selector selector property_value =
     (if str_in ''[data-subplot-idx'' selector then ''6_subplot_colors''
      else if any_in mode_patterns selector then ''5_mode_overrides''
      else if any_in state_patterns selector then ''4_selection_states''
      else if str_in '':hover'' selector \<or> str_in ''.scene-hover'' selector
              \<or> str_in ''.rt-hover'' selector then ''3_hover_states''
      else if any_in validation_patterns selector then ''2_validation_states''
      else if any_in obsidian_patterns selector then ''1_obsidian_resets''
      else ''7_other'')"

subsection \<open>Selector tracker and declaration extractor: \<^verbatim>\<open>parse_css_file\<close>\<close>

record ImportantDeclaration =
  file_name :: string
  line_number :: int
  selector :: string
  property :: string
  value_text :: string
  category :: string

text \<open>The variables of the scanning loop. \<open>selector_start_line\<close> is written by the
  script and never read.\<close>

record scan_state =
  current_selector :: string
  brace_depth :: int
  selector_start_line :: int
  declarations :: "ImportantDeclaration list"

text \<open>The backward scan at an opening brace that starts its line at depth zero
  (indices \<open>line_num - 2\<close> down to \<open>max 0 (line_num - 10) + 1\<close> of \<open>lines\<close>): the first
  non-empty line that is not a comment line and has no brace.\<close>

definition lookback_selector :: "string list \<Rightarrow> int \<Rightarrow> (string \<times> int) option" where
  "lookback_selector lines line_num =
     first_some
       (\<lambda>back_line.
          let prev_line = strip (lines ! nat back_line) in
          if prev_line \<noteq> [] \<and> \<not> startswith ''/*'' prev_line \<and> \<not> startswith ''*'' prev_line
             \<and> \<not> str_in ''{'' prev_line \<and> \<not> str_in ''}'' prev_line
          then Some (prev_line, back_line + 1) else None)
       (range_down (line_num - 2) (max 0 (line_num - 10)))"

text \<open>The fallback of the extractor when the current selector is empty (indices
  \<open>line_num - 2\<close> down to \<open>max 0 (line_num - 20) + 1\<close>): the first line that ends with
  an opening brace or contains one.\<close>

definition fallback_selector :: "string list \<Rightarrow> int \<Rightarrow> string option" where
  "fallback_selector lines line_num =
     first_some
       (\<lambda>back_line.
          let prev = strip (lines ! nat back_line) in
          if endswith ''{'' prev then Some (strip (butlast prev))
          else if str_in ''{'' prev
               then Some (strip (take (nat (find_char CHR ''{'' prev)) prev))
          else None)
       (range_down (line_num - 2) (max 0 (line_num - 20)))"

text \<open>One iteration of the loop over \<^verbatim>\<open>enumerate(lines, 1)\<close>.\<close>

definition track_selector :: "string list \<Rightarrow> int \<Rightarrow> string \<Rightarrow> scan_state \<Rightarrow> scan_state" where
  "track_selector lines line_num line st =
     (let open_braces = count_char CHR ''{'' line;
          close_braces = count_char CHR ''}'' line;
          st1 =
            (if open_braces > 0 then
               (let brace_pos = find_char CHR ''{'' line in
                if brace_pos > 0 then
                  (let potential_selector = strip (take (nat brace_pos) line) in
                   if potential_selector \<noteq> [] \<and> \<not> startswith ''/*'' potential_selector
                   then st\<lparr>current_selector := potential_selector,
                           selector_start_line := line_num\<rparr>
                   else st)
                else if brace_depth st = 0 then
                  (case lookback_selector lines line_num of
                     Some (prev_line, start) \<Rightarrow>
                       st\<lparr>current_selector := prev_line, selector_start_line := start\<rparr>
                   | None \<Rightarrow> st)
                else st)
             else st);
          st2 = st1\<lparr>brace_depth := brace_depth st1 + (open_braces - close_braces)\<rparr>
      in if brace_depth st2 = 0 \<and> close_braces > 0 then st2\<lparr>current_selector := []\<rparr>
         else st2)"

definition extract_declaration ::
  "string \<Rightarrow> string list \<Rightarrow> int \<Rightarrow> string \<Rightarrow> scan_state \<Rightarrow> scan_state" where
  "extract_declaration fname lines line_num line st =
     (if str_in ''!important'' line then
        (case search_important line of
           Some (g1, g2) \<Rightarrow>
             (let prop = strip g1;
                  val = strip (rstrip_chars '';'' (strip g2));
                  sel = (if current_selector st = [] then
                           (case fallback_selector lines line_num of
                              Some s \<Rightarrow> s | None \<Rightarrow> current_selector st)
                         else current_selector st);
                  cat = categorize_selector sel (prop @ '': '' @ val)
              in st\<lparr>declarations := declarations st @
                     [\<lparr>file_name = fname, line_number = line_num, selector = sel,
                       property = prop, value_text = val, category = cat\<rparr>]\<rparr>)
         | None \<Rightarrow> st)
      else st)"

definition scan_line :: "string \<Rightarrow> string list \<Rightarrow> scan_state \<Rightarrow> int \<times> string \<Rightarrow> scan_state" where
  "scan_line fname lines st nl =
     extract_declaration fname lines (fst nl) (snd nl) (track_selector lines (fst nl) (snd nl) st)"

definition enumerate1 :: "'a list \<Rightarrow> (int \<times> 'a) list" where
  "enumerate1 xs = zip (map int [1 ..< Suc (length xs)]) xs"

definition initial_state :: scan_state where
  "initial_state =
     \<lparr>current_selector = [], brace_depth = 0, selector_start_line = 0, declarations = []\<rparr>"

text \<open>\<open>fname\<close> is \<^verbatim>\<open>file_path.name\<close>, \<open>content\<close> what \<^verbatim>\<open>f.read()\<close> returned.\<close>

definition parse_css_file :: "string \<Rightarrow> string \<Rightarrow> ImportantDeclaration list" where
  "parse_css_file fname content =
     (let lines = split_nl content in
      declarations (foldl (scan_line fname lines) initial_state (enumerate1 lines)))"

subsection \<open>Aggregator and reporter: \<^verbatim>\<open>main\<close>\<close>

text \<open>\<^verbatim>\<open>str(n)\<close> for the integers the script prints.\<close>

definition digit_char :: "nat \<Rightarrow> char" where
  "digit_char d = char_of (48 + d)"

fun str_nat :: "nat \<Rightarrow> string" where
  "str_nat n = (if n < 10 then [digit_char n] else str_nat (n div 10) @ [digit_char (n mod 10)])"

declare str_nat.simps [simp del]

definition str_int :: "int \<Rightarrow> string" where
  "str_int i = (if i < 0 then CHR ''-'' # str_nat (nat (- i)) else str_nat (nat i))"

text \<open>
  A \<^verbatim>\<open>defaultdict\<close> is an association list in insertion order, as Python dictionaries
  keep it. \<open>dd_append\<close> is \<^verbatim>\<open>d[k].append(v)\<close> on a \<^verbatim>\<open>defaultdict(list)\<close>, \<open>dd_incr\<close> is
  \<^verbatim>\<open>d[k] += 1\<close> on a \<^verbatim>\<open>defaultdict(int)\<close>, \<open>dd_get\<close> is \<^verbatim>\<open>d[k]\<close>.
\<close>

fun dd_append :: "'k \<Rightarrow> 'v \<Rightarrow> ('k \<times> 'v list) list \<Rightarrow> ('k \<times> 'v list) list" where
  "dd_append k v [] = [(k, [v])]"
| "dd_append k v ((k', vs) # m) =
     (if k' = k then (k', vs @ [v]) # m else (k', vs) # dd_append k v m)"

fun dd_incr :: "'k \<Rightarrow> ('k \<times> nat) list \<Rightarrow> ('k \<times> nat) list" where
  "dd_incr k [] = [(k, 1)]"
| "dd_incr k ((k', n) # m) = (if k' = k then (k', n + 1) # m else (k', n) # dd_incr k m)"

definition dd_get :: "('k \<times> 'v list) list \<Rightarrow> 'k \<Rightarrow> 'v list" where
  "dd_get m k = (case map_of m k of Some vs \<Rightarrow> vs | None \<Rightarrow> [])"

text \<open>The loops \<^verbatim>\<open>for d in decls: by[key(d)].append(d)\<close> and
  \<^verbatim>\<open>for d in decls: by[key(d)] += 1\<close>.\<close>

definition group_by :: "('v \<Rightarrow> 'k) \<Rightarrow> 'v list \<Rightarrow> ('k \<times> 'v list) list" where
  "group_by key xs = foldl (\<lambda>m x. dd_append (key x) x m) [] xs"

definition count_by :: "('v \<Rightarrow> 'k) \<Rightarrow> 'v list \<Rightarrow> ('k \<times> nat) list" where
  "count_by key xs = foldl (\<lambda>m x. dd_incr (key x) m) [] xs"

definition category_names :: "(string \<times> string) list" where
  "category_names =
     [(''1_obsidian_resets'', ''Category 1: Obsidian Resets''),
      (''2_validation_states'', ''Category 2: Validation States''),
      (''3_hover_states'', ''Category 3: Hover States''),
      (''4_selection_states'', ''Category 4: Selection States''),
      (''5_mode_overrides'', ''Category 5: Mode Overrides''),
      (''6_subplot_colors'', ''Category 6: Subplot Colors''),
      (''7_other'', ''Category 7: Other/Uncategorized'')]"

text \<open>\<^verbatim>\<open>category_names.get(cat_key, cat_key)\<close>.\<close>

definition category_name :: "string \<Rightarrow> string" where
  "category_name cat_key =
     (case map_of category_names cat_key of Some n \<Rightarrow> n | None \<Rightarrow> cat_key)"

text \<open>The report that is written as JSON. A JSON object is the list of its entries in
  insertion order.\<close>

record category_entry =
  name :: string
  count :: nat
  files :: "(string \<times> ImportantDeclaration list) list"

record report =
  total :: nat
  by_category :: "(string \<times> category_entry) list"
  report_declarations :: "ImportantDeclaration list"

definition build_report :: "ImportantDeclaration list \<Rightarrow> report" where
  "build_report all_declarations =
     (let by_cat = group_by category all_declarations in
      \<lparr>total = length all_declarations,
       by_category =
         map (\<lambda>cat_key.
                (cat_key,
                 \<lparr>name = category_name cat_key,
                  count = length (dd_get by_cat cat_key),
                  files = group_by file_name (dd_get by_cat cat_key)\<rparr>))
             (sort (map fst by_cat)),
       report_declarations = all_declarations\<rparr>)"

text \<open>What the script prints, one string for every call of \<^verbatim>\<open>print\<close>.\<close>

definition scan_lines :: "(string \<times> ImportantDeclaration list) list \<Rightarrow> string list" where
  "scan_lines parsed =
     map (\<lambda>(fname, decls).
            ''  '' @ fname @ '': '' @ str_nat (length decls) @ '' !important declarations'')
         parsed"

definition summary_lines :: "(string \<times> ImportantDeclaration list) list \<Rightarrow> string list" where
  "summary_lines by_cat =
     concat (map (\<lambda>cat_key.
                    (let decls = dd_get by_cat cat_key in
                     [category_name cat_key @ '': '' @ str_nat (length decls)] @
                     map (\<lambda>(fname, n). ''    '' @ fname @ '': '' @ str_nat n)
                         (sort (count_by file_name decls)) @
                     [[]]))
                 (sort (map fst by_cat)))"

definition selector_short :: "ImportantDeclaration \<Rightarrow> string" where
  "selector_short d =
     (if length (selector d) > 60 then take 60 (selector d) @ ''...'' else selector d)"

definition detail_lines :: "(string \<times> ImportantDeclaration list) list \<Rightarrow> string list" where
  "detail_lines by_cat =
     concat (map (\<lambda>cat_key.
                    (let decls = dd_get by_cat cat_key;
                         by_file = group_by file_name decls in
                     [CHR 0x0A # replicate 60 CHR ''-'',
                      category_name cat_key @ '' ('' @ str_nat (length decls) @ '' declarations)'',
                      replicate 60 CHR ''-''] @
                     concat (map (\<lambda>fname.
                                    (CHR 0x0A # ''  '' @ fname @ '':'') #
                                    concat (map (\<lambda>d.
                                                   [''    L'' @ str_int (line_number d) @ '': '' @
                                                      property d @ '': '' @
                                                      take 30 (value_text d) @ ''...'',
                                                    ''        Selector: '' @ selector_short d])
                                                (sort_key line_number (dd_get by_file fname))))
                                 (sort (map fst by_file)))))
                 (sort (map fst by_cat)))"

text \<open>
  A run. \<open>styles_dir\<close> and \<open>report_path\<close> are the two paths as printed; \<open>dir\<close> is
  \<open>None\<close> when the styles directory does not exist, and otherwise the files that
  \<^verbatim>\<open>styles_dir.glob('*.css')\<close> yields, each with its name and its content. The files
  of one directory are sorted by their paths, that is by their names. Every file is taken
  to be readable as UTF-8 text: the script has no handler for a file it cannot read. The
  result is what was printed and the report file that was written, if any.
\<close>

record run_result =
  console :: "string list"
  written :: "(string \<times> report) option"

definition main :: "string \<Rightarrow> string \<Rightarrow> (string \<times> string) list option \<Rightarrow> run_result" where
  "main styles_dir report_path dir =
     (case dir of
        None \<Rightarrow>
          \<lparr>console = [''Error: Styles directory not found at '' @ styles_dir],
           written = None\<rparr>
      | Some globbed \<Rightarrow>
          (let css_files = sort_key fst globbed;
               parsed = map (\<lambda>(fname, content). (fname, parse_css_file fname content)) css_files;
               all_declarations = concat (map snd parsed);
               by_cat = group_by category all_declarations
           in \<lparr>console =
                  [CHR 0x0A # ''Scanning '' @ str_nat (length css_files) @ '' CSS files in '' @
                     styles_dir @ [CHR 0x0A]] @
                  scan_lines parsed @
                  [CHR 0x0A # replicate 60 CHR ''='',
                   ''TOTAL: '' @ str_nat (length all_declarations) @ '' !important declarations'',
                   replicate 60 CHR ''='' @ [CHR 0x0A],
                   ''SUMMARY BY CATEGORY:'' @ [CHR 0x0A]] @
                  summary_lines by_cat @
                  [''Detailed report written to: '' @ report_path,
                   CHR 0x0A # replicate 60 CHR ''='',
                   ''DETAILED BREAKDOWN BY CATEGORY'',
                   replicate 60 CHR ''='' @ [CHR 0x0A]] @
                  detail_lines by_cat,
                written = Some (report_path, build_report all_declarations)\<rparr>))"

section \<open>Notions used to state the claims\<close>

text \<open>\<open>in_order_of order ks\<close>: the keys \<open>ks\<close> are exactly the members of \<open>order\<close> that
  occur among them, in the order they have in \<open>order\<close>.\<close>

definition in_order_of :: "'a list \<Rightarrow> 'a list \<Rightarrow> bool" where
  "in_order_of order ks = (ks = filter (\<lambda>k. k \<in> set ks) order)"

text \<open>The category order of section 4.3 of the specification (the order in which the
  classifier tests the categories), as category keys. It is stated from the
  specification, to be compared with the order of the report.\<close>

definition spec_category_order :: "string list" where
  "spec_category_order =
     [''6_subplot_colors'', ''5_mode_overrides'', ''4_selection_states'', ''3_hover_states'',
      ''2_validation_states'', ''1_obsidian_resets'', ''7_other'']"

text \<open>The value of a record as the specification words it: the matched value text
  trimmed, with a single trailing terminator removed if there is one. It is stated from
  the specification, to be compared with what the extractor computes.\<close>

definition spec_strip_one_terminator :: "string \<Rightarrow> string" where
  "spec_strip_one_terminator g =
     (let t = strip g in if endswith '';'' t then butlast t else t)"

section \<open>Properties of the scan\<close>

subsection \<open>One line adds at most one record\<close>

lemma track_selector_declarations [simp]:
  "declarations (track_selector lines line_num line st) = declarations st"
  by (simp add: track_selector_def Let_def split: option.splits prod.splits)

lemma extract_declaration_cases:
  "extract_declaration fname lines line_num line st = st \<or>
   (str_in ''!important'' line \<and>
    (\<exists>d. declarations (extract_declaration fname lines line_num line st) = declarations st @ [d]
         \<and> line_number d = line_num))"
  by (simp add: extract_declaration_def Let_def split: option.splits prod.splits)

lemma scan_line_cases:
  "declarations (scan_line fname lines st nl) = declarations st \<or>
   (str_in ''!important'' (snd nl) \<and>
    (\<exists>d. declarations (scan_line fname lines st nl) = declarations st @ [d]
         \<and> line_number d = fst nl))"
  using extract_declaration_cases
    [of fname lines "fst nl" "snd nl" "track_selector lines (fst nl) (snd nl) st"]
  by (auto simp: scan_line_def)

lemma enumerate1_snd: "map snd (enumerate1 xs) = xs"
  by (simp add: enumerate1_def del: upt_Suc)

lemma enumerate1_fst: "map fst (enumerate1 xs) = map int [1 ..< Suc (length xs)]"
  by (simp add: enumerate1_def del: upt_Suc)

lemma enumerate1_fst_sorted: "sorted_wrt (<) (map fst (enumerate1 xs))"
  unfolding enumerate1_fst by (simp add: sorted_wrt_map sorted_wrt_upt del: upt_Suc)

lemma filter_snd_enumerate1:
  "length (filter (\<lambda>nl. P (snd nl)) (enumerate1 xs)) = length (filter P xs)"
proof -
  have "length (filter P (map snd (enumerate1 xs))) =
        length (filter (\<lambda>nl. P (snd nl)) (enumerate1 xs))"
    by (simp add: filter_map comp_def)
  then show ?thesis by (simp add: enumerate1_snd)
qed

lemma scan_count:
  "length (declarations (foldl (scan_line fname lines) st xs))
     \<le> length (declarations st) + length (filter (\<lambda>nl. str_in ''!important'' (snd nl)) xs)"
proof (induction xs arbitrary: st)
  case Nil
  then show ?case by simp
next
  case (Cons x xs)
  have step: "length (declarations (scan_line fname lines st x))
      \<le> length (declarations st) + (if str_in ''!important'' (snd x) then 1 else 0)"
    using scan_line_cases [of fname lines st x] by auto
  show ?case using Cons.IH [of "scan_line fname lines st x"] step by (simp split: if_splits)
qed

lemma scan_sorted:
  "sorted_wrt (<) (map fst xs) \<Longrightarrow>
   sorted_wrt (<) (map line_number (declarations st)) \<Longrightarrow>
   (\<forall>d \<in> set (declarations st). \<forall>x \<in> set xs. line_number d < fst x) \<Longrightarrow>
   sorted_wrt (<) (map line_number (declarations (foldl (scan_line fname lines) st xs)))"
proof (induction xs arbitrary: st)
  case Nil
  then show ?case by simp
next
  case (Cons x xs)
  let ?st = "scan_line fname lines st x"
  have a: "sorted_wrt (<) (map fst xs)" using Cons.prems(1) by simp
  have lt: "\<forall>y \<in> set xs. fst x < fst y" using Cons.prems(1) by auto
  from scan_line_cases [of fname lines st x]
  have b: "sorted_wrt (<) (map line_number (declarations ?st))
         \<and> (\<forall>d \<in> set (declarations ?st). \<forall>y \<in> set xs. line_number d < fst y)"
  proof
    assume "declarations ?st = declarations st"
    then show ?thesis using Cons.prems by auto
  next
    assume "str_in ''!important'' (snd x) \<and>
      (\<exists>d. declarations ?st = declarations st @ [d] \<and> line_number d = fst x)"
    then obtain d where d: "declarations ?st = declarations st @ [d]" "line_number d = fst x"
      by blast
    show ?thesis using Cons.prems lt d by (auto simp: sorted_wrt_append)
  qed
  show ?case using Cons.IH [of ?st] a b by simp
qed

lemma parse_sorted: "sorted_wrt (<) (map line_number (parse_css_file fname content))"
  using scan_sorted [of "enumerate1 (split_nl content)" initial_state fname "split_nl content"]
  by (simp add: parse_css_file_def Let_def enumerate1_fst_sorted initial_state_def)

text \<open>
  Claim C6. For every input file, the scan produces no more records than the file has
  lines that contain the marker \<^verbatim>\<open>!important\<close>.
\<close>

theorem records_le_marked_lines:
  "length (parse_css_file fname content)
     \<le> length (filter (str_in ''!important'') (split_nl content))"
  using scan_count [of fname "split_nl content" initial_state "enumerate1 (split_nl content)"]
  by (simp add: parse_css_file_def Let_def filter_snd_enumerate1 initial_state_def)

text \<open>
  Claim C9. For every input file, the line numbers of the records are strictly
  increasing, so no line yields two records. On a line with two marked declarations
  only the first match of the pattern yields a record.
\<close>

theorem line_numbers_strictly_increasing:
  "sorted_wrt (<) (map line_number (parse_css_file fname content)) \<and>
   distinct (map line_number (parse_css_file fname content)) \<and>
   map (\<lambda>d. (line_number d, property d, value_text d))
     (parse_css_file ''a.css'' ''a { b: c !important; d: e !important; }'')
     = [(1, ''b'', ''c'')]"
proof -
  have s: "sorted_wrt (<) (map line_number (parse_css_file fname content))"
    by (rule parse_sorted)
  have d: "distinct (map line_number (parse_css_file fname content))"
    using s strict_sorted_iff by blast
  have e: "map (\<lambda>d. (line_number d, property d, value_text d))
     (parse_css_file ''a.css'' ''a { b: c !important; d: e !important; }'')
     = [(1, ''b'', ''c'')]"
    by code_simp
  show ?thesis using s d e by blast
qed

subsection \<open>Classifier\<close>

text \<open>
  Claim C4. The classifier is a function of the selector alone that returns, for every
  selector, one of the seven category keys, and \<open>7_other\<close> for the empty selector.
\<close>

theorem categorize_selector_total:
  "categorize_selector sel pv \<in> fst ` set category_names \<and>
   categorize_selector sel pv = categorize_selector sel [] \<and>
   length category_names = 7 \<and>
   categorize_selector [] pv = ''7_other''"
  by (simp add: categorize_selector_def category_names_def any_in_def mode_patterns_def
      state_patterns_def validation_patterns_def obsidian_patterns_def)

section \<open>Properties of a run\<close>

text \<open>
  Claim C8. When the styles directory does not exist, the run prints the error message
  and nothing else, scans no file and writes no report.
\<close>

theorem missing_directory:
  "main styles_dir report_path None =
     \<lparr>console = [''Error: Styles directory not found at '' @ styles_dir], written = None\<rparr>"
  by (simp add: main_def)

subsection \<open>Grouping\<close>

lemma dd_append_keys:
  "map fst (dd_append k v m) = (if k \<in> fst ` set m then map fst m else map fst m @ [k])"
  by (induction m) (fastforce simp: image_iff)+

lemma dd_get_Nil [simp]: "dd_get [] k = []"
  by (simp add: dd_get_def)

lemma dd_append_get:
  "dd_get (dd_append k v m) k' = (if k' = k then dd_get m k @ [v] else dd_get m k')"
  by (induction m) (auto simp: dd_get_def)


lemma group_by_snoc: "group_by key (xs @ [x]) = dd_append (key x) x (group_by key xs)"
  by (simp add: group_by_def)

lemma group_by_Nil [simp]: "group_by key [] = []"
  by (simp add: group_by_def)

lemma group_by_keys: "set (map fst (group_by key xs)) = key ` set xs"
  by (induction xs rule: rev_induct) (auto simp: group_by_snoc dd_append_keys)

lemma group_by_distinct: "distinct (map fst (group_by key xs))"
  by (induction xs rule: rev_induct) (auto simp: group_by_snoc dd_append_keys)

lemma group_by_get: "dd_get (group_by key xs) k = filter (\<lambda>x. key x = k) xs"
  by (induction xs rule: rev_induct) (auto simp: group_by_snoc dd_append_get)






lemma written_main:
  "written (main sd rp (Some fs)) =
   Some (rp, build_report (concat (map (\<lambda>(n, c). parse_css_file n c) (sort_key fst fs))))"
  by (simp add: main_def Let_def comp_def split_def)


lemma build_report_keys:
  "map fst (by_category (build_report ds)) = sort (map fst (group_by category ds))"
  by (simp add: build_report_def Let_def comp_def)

lemma build_report_key_set:
  "set (map fst (by_category (build_report ds))) = category ` set ds"
  unfolding build_report_keys using group_by_keys [of category ds] by simp

lemma build_report_declarations [simp]: "report_declarations (build_report ds) = ds"
  by (simp add: build_report_def Let_def)

lemma build_report_count_pos:
  "0 \<notin> set (map (\<lambda>(k, e). count e) (by_category (build_report ds)))"
proof
  assume "0 \<in> set (map (\<lambda>(k, e). count e) (by_category (build_report ds)))"
  then obtain p where p: "p \<in> set (group_by category ds)"
    and z0: "length (dd_get (group_by category ds) (fst p)) = 0"
    by (auto simp: build_report_def Let_def)
  define k where "k = fst p"
  have z: "length (dd_get (group_by category ds) k) = 0"
    using z0 by (simp add: k_def)
  have "k \<in> set (map fst (group_by category ds))"
    using p by (simp add: k_def)
  then have "k \<in> category ` set ds"
    by (simp only: group_by_keys)
  then obtain d where "d \<in> set ds" "category d = k" by auto
  then have "filter (\<lambda>d. category d = k) ds \<noteq> []"
    by (auto simp: filter_empty_conv)
  then show False using z by (simp add: group_by_get)
qed

text \<open>
  Claim C10. The report has an entry exactly for the categories that some record has,
  so no entry has count zero; with no input file the report has no category at all.
\<close>

theorem only_nonempty_categories:
  "(case written (main styles_dir report_path (Some fs)) of
      None \<Rightarrow> False
    | Some (path, r) \<Rightarrow>
        set (map fst (by_category r)) = category ` set (report_declarations r) \<and>
        0 \<notin> set (map (\<lambda>(k, e). count e) (by_category r))) \<and>
   written (main styles_dir report_path (Some [])) =
     Some (report_path, \<lparr>total = 0, by_category = [], report_declarations = []\<rparr>)"
proof -
  have a: "set (map fst (by_category (build_report ds))) =
        category ` set (report_declarations (build_report ds))" for ds
    by (simp only: build_report_key_set build_report_declarations)
  have b: "written (main styles_dir report_path (Some [])) =
     Some (report_path, \<lparr>total = 0, by_category = [], report_declarations = []\<rparr>)"
    by (simp add: written_main build_report_def)
  show ?thesis
    unfolding written_main
    by (simp only: option.case prod.case)
       (rule conjI [OF conjI [OF a build_report_count_pos] b [unfolded written_main]])
qed

lemma key_order_sorted: "sorted (map fst category_names) \<and> distinct (map fst category_names)"
  by (simp add: category_names_def)

subsection \<open>Order of the categories in the report\<close>

lemma categorize_selector_key: "categorize_selector sel pv \<in> set (map fst category_names)"
  by (simp add: categorize_selector_def category_names_def)

lemma extract_declaration_category:
  "\<forall>d \<in> set (declarations st). category d \<in> set (map fst category_names) \<Longrightarrow>
   \<forall>d \<in> set (declarations (extract_declaration fname lines line_num line st)).
      category d \<in> set (map fst category_names)"
  using categorize_selector_key
  by (auto simp: extract_declaration_def Let_def split: option.splits prod.splits)

lemma scan_category:
  "\<forall>d \<in> set (declarations st). category d \<in> set (map fst category_names) \<Longrightarrow>
   \<forall>d \<in> set (declarations (foldl (scan_line fname lines) st xs)).
      category d \<in> set (map fst category_names)"
proof (induction xs arbitrary: st)
  case Nil
  then show ?case by simp
next
  case (Cons x xs)
  have "\<forall>d \<in> set (declarations (scan_line fname lines st x)).
          category d \<in> set (map fst category_names)"
    unfolding scan_line_def
    by (rule extract_declaration_category) (use Cons.prems in simp)
  then show ?case using Cons.IH by simp
qed

lemma parse_category:
  "d \<in> set (parse_css_file fname content) \<Longrightarrow> category d \<in> set (map fst category_names)"
  using scan_category [of initial_state fname "split_nl content" "enumerate1 (split_nl content)"]
  by (simp add: parse_css_file_def Let_def initial_state_def)

lemma sorted_keys_in_order:
  assumes "set ks \<subseteq> set order" "sorted order" "distinct order" "sorted ks" "distinct ks"
  shows "in_order_of order ks"
proof -
  let ?f = "filter (\<lambda>k. k \<in> set ks) order"
  have "set ?f = set ks" using assms(1) by auto
  moreover have "sorted ?f" using assms(2) by (rule sorted_filter [where f = "\<lambda>x. x", simplified])
  moreover have "distinct ?f" using assms(3) by simp
  ultimately have "ks = ?f"
    using assms(4,5) sorted_distinct_set_unique by metis
  then show ?thesis by (simp add: in_order_of_def)
qed

text \<open>
  Claim C3, as amended. The categories of the report appear in ascending order of their
  keys, that is \<open>1_obsidian_resets\<close>, \<open>2_validation_states\<close>, \<open>3_hover_states\<close>,
  \<open>4_selection_states\<close>, \<open>5_mode_overrides\<close>, \<open>6_subplot_colors\<close>, \<open>7_other\<close>,
  restricted to the categories that occur; this is neither the order of discovery nor
  the evaluation order of the classifier.
\<close>

theorem report_key_order:
  "case written (main styles_dir report_path (Some fs)) of
     None \<Rightarrow> False
   | Some (path, r) \<Rightarrow>
       map fst category_names =
         [''1_obsidian_resets'', ''2_validation_states'', ''3_hover_states'',
          ''4_selection_states'', ''5_mode_overrides'', ''6_subplot_colors'', ''7_other''] \<and>
       in_order_of (map fst category_names) (map fst (by_category r)) \<and>
       sorted_wrt (<) (map fst (by_category r))"
proof -
  define ds where "ds = concat (map (\<lambda>(n, c). parse_css_file n c) (sort_key fst fs))"
  have cat: "category ` set ds \<subseteq> set (map fst category_names)"
    using parse_category by (auto simp: ds_def)
  have keys: "map fst (by_category (build_report ds)) = sort (map fst (group_by category ds))"
    by (rule build_report_keys)
  have d: "distinct (map fst (by_category (build_report ds)))"
    unfolding keys using group_by_distinct [of category ds] by simp
  have s: "sorted (map fst (by_category (build_report ds)))"
    unfolding keys by simp
  have sub: "set (map fst (by_category (build_report ds))) \<subseteq> set (map fst category_names)"
    using cat by (simp only: build_report_key_set)
  have io: "in_order_of (map fst category_names) (map fst (by_category (build_report ds)))"
    using sub key_order_sorted s d by (intro sorted_keys_in_order) simp_all
  have st: "sorted_wrt (<) (map fst (by_category (build_report ds)))"
    using s d strict_sorted_iff by blast
  have names: "map fst category_names =
         [''1_obsidian_resets'', ''2_validation_states'', ''3_hover_states'',
          ''4_selection_states'', ''5_mode_overrides'', ''6_subplot_colors'', ''7_other'']"
    by (simp add: category_names_def)
  show ?thesis
    unfolding written_main ds_def [symmetric]
    by (simp only: option.case prod.case) (rule conjI [OF names conjI [OF io st]])
qed

text \<open>
  Claim C3 as stated fails: for a file with a subplot-colour rule followed by a
  host-application rule, the report lists \<open>1_obsidian_resets\<close> before
  \<open>6_subplot_colors\<close>, which is not the category order of the specification.
\<close>

theorem report_key_order_counterexample:
  "case written (main ''src/styles'' ''important-audit-report.json''
       (Some [(''a.css'',
               ''[data-subplot-idx] {'' @ [CHR 0x0A] @ ''  color: red !important;'' @ [CHR 0x0A] @
               ''}'' @ [CHR 0x0A] @ ''.modal-content {'' @ [CHR 0x0A] @
               ''  padding: 0 !important;'' @ [CHR 0x0A] @ ''}'')])) of
     None \<Rightarrow> False
   | Some (path, r) \<Rightarrow>
       map category (report_declarations r) = [''6_subplot_colors'', ''1_obsidian_resets''] \<and>
       map fst (by_category r) = [''1_obsidian_resets'', ''6_subplot_colors''] \<and>
       \<not> in_order_of spec_category_order (map fst (by_category r))"
  by code_simp

text \<open>
  Claim C1. The claim expects selector \<^verbatim>\<open>.rt-selected\<close> and category
  \<open>4_selection_states\<close> for the one-line file
  \<^verbatim>\<open>.rt-selected { color: red!important; }\<close>. The scan yields one record with property
  \<open>color\<close> and value \<open>red\<close>, but the closing brace on the same line resets the selector
  before the declaration is read, and the fallback only looks at earlier lines: the
  selector is empty and the category is \<open>7_other\<close>.
\<close>

theorem single_line_rule_loses_selector:
  "parse_css_file ''a.css'' ''.rt-selected { color: red!important; }'' =
     [\<lparr>file_name = ''a.css'', line_number = 1, selector = [], property = ''color'',
       value_text = ''red'', category = ''7_other''\<rparr>]"
  by code_simp

text \<open>
  Claim C2. The claim expects selector \<^verbatim>\<open>.modal-content\<close> and category
  \<open>1_obsidian_resets\<close> for the file whose lines are \<^verbatim>\<open>.modal-content\<close>, \<^verbatim>\<open>{\<close>,
  \<^verbatim>\<open>  padding: 0 !important;\<close>, \<^verbatim>\<open>}\<close>. The backward scan at the brace of line 2 never
  reads the first line of a file (its range stops before index 0), and the fallback stops
  at the brace line itself: the one record has an empty selector and category \<open>7_other\<close>.
  With one more line in front of the selector, the selector is recovered.
\<close>

theorem brace_on_second_line_loses_selector:
  "parse_css_file ''a.css''
     (''.modal-content'' @ [CHR 0x0A] @ ''{'' @ [CHR 0x0A] @ ''  padding: 0 !important;'' @
      [CHR 0x0A] @ ''}'') =
     [\<lparr>file_name = ''a.css'', line_number = 3, selector = [], property = ''padding'',
       value_text = ''0'', category = ''7_other''\<rparr>]"
  by code_simp

subsection \<open>The value of a record\<close>

lemma rtrim_decomp: "\<exists>t. s = rev (dropWhile P (rev s)) @ t \<and> (\<forall>c \<in> set t. P c)"
proof -
  have "rev s = takeWhile P (rev s) @ dropWhile P (rev s)" by simp
  then have "s = rev (dropWhile P (rev s)) @ rev (takeWhile P (rev s))"
    by (metis rev_append rev_rev_ident)
  moreover have "\<forall>c \<in> set (rev (takeWhile P (rev s))). P c"
    by (auto dest: set_takeWhileD)
  ultimately show ?thesis by blast
qed

lemma rtrim_last:
  "rev (dropWhile P (rev s)) \<noteq> [] \<Longrightarrow> \<not> P (last (rev (dropWhile P (rev s))))"
  by (simp add: last_rev hd_dropWhile)

lemma strip_hd: "strip s \<noteq> [] \<Longrightarrow> \<not> is_space (hd (strip s))"
proof -
  assume ne: "strip s \<noteq> []"
  let ?w = "dropWhile is_space s"
  obtain t where t: "?w = strip s @ t"
    using rtrim_decomp [of ?w is_space] by (auto simp: strip_def)
  then have "?w \<noteq> []" using ne by auto
  then have "\<not> is_space (hd ?w)" by (rule hd_dropWhile)
  moreover have "hd ?w = hd (strip s)" using t ne by (metis hd_append2)
  ultimately show ?thesis by simp
qed

lemma strip_no_leading:
  "u = [] \<or> \<not> is_space (hd u) \<Longrightarrow> strip u = rev (dropWhile is_space (rev u))"
  by (cases u) (auto simp: strip_def)

lemma endswith_single: "endswith [c] s \<longleftrightarrow> s \<noteq> [] \<and> last s = c"
  by (cases s rule: rev_cases) (auto simp: endswith_def)

lemma value_shape:
  fixes g :: string
  defines "v \<equiv> strip (rstrip_chars '';'' (strip g))"
  shows "\<exists>ws n. strip g = v @ ws @ replicate n CHR '';'' \<and> list_all is_space ws \<and>
           \<not> endswith '';'' (v @ ws)"
proof -
  let ?t = "strip g"
  let ?u = "rstrip_chars '';'' ?t"
  obtain semis where semis: "?t = ?u @ semis" "\<forall>c \<in> set semis. c \<in> set '';''"
    using rtrim_decomp [of ?t "\<lambda>c. c \<in> set '';''"] by (auto simp: rstrip_chars_def)
  have rep: "semis = replicate (length semis) CHR '';''"
    using semis(2) by (intro replicate_length_same [symmetric]) simp
  have ulast: "?u \<noteq> [] \<Longrightarrow> last ?u \<noteq> CHR '';''"
    using rtrim_last [of "\<lambda>c. c \<in> set '';''" ?t] by (simp add: rstrip_chars_def)
  have uhd: "?u = [] \<or> \<not> is_space (hd ?u)"
  proof (cases "?u = []")
    case True
    then show ?thesis by simp
  next
    case False
    then have "hd ?u = hd ?t" using semis(1) by (metis hd_append2)
    moreover have "?t \<noteq> []" using False semis(1) by auto
    ultimately show ?thesis using strip_hd [of g] by simp
  qed
  have v: "v = rev (dropWhile is_space (rev ?u))"
    unfolding v_def using uhd by (rule strip_no_leading)
  obtain ws where ws: "?u = v @ ws" "\<forall>c \<in> set ws. is_space c"
    using rtrim_decomp [of ?u is_space] v by auto
  have "\<not> endswith '';'' ?u"
    using ulast by (simp only: endswith_single) blast
  with ws(1) have e: "\<not> endswith '';'' (v @ ws)"
    by simp
  have "strip g = v @ ws @ replicate (length semis) CHR '';''"
    using semis(1) ws(1) rep by simp
  then show ?thesis using ws(2) e by (auto simp: list_all_iff)
qed

lemma enumerate1_mem:
  "(n, l) \<in> set (enumerate1 xs) \<Longrightarrow> 1 \<le> n \<and> nat n \<le> length xs \<and> l = xs ! (nat n - 1)"
proof -
  assume "(n, l) \<in> set (enumerate1 xs)"
  then obtain i where i: "i < length xs" "n = int (Suc i)" "l = xs ! i"
    by (auto simp: enumerate1_def in_set_zip simp del: upt_Suc)
  have "nat n - 1 = i" using i(2) by simp
  then show ?thesis using i by simp
qed

lemma extract_declaration_origin:
  assumes "d \<in> set (declarations (extract_declaration fname lines line_num line st))"
  shows "d \<in> set (declarations st) \<or>
         (line_number d = line_num \<and>
          (\<exists>g1 g2. search_important line = Some (g1, g2) \<and> property d = strip g1 \<and>
                   value_text d = strip (rstrip_chars '';'' (strip g2))))"
  using assms
  by (auto simp: extract_declaration_def Let_def split: if_splits option.splits prod.splits)

lemma scan_origin:
  assumes "d \<in> set (declarations (foldl (scan_line fname lines) st xs))"
  shows "d \<in> set (declarations st) \<or>
         (\<exists>x \<in> set xs. line_number d = fst x \<and>
            (\<exists>g1 g2. search_important (snd x) = Some (g1, g2) \<and> property d = strip g1 \<and>
                     value_text d = strip (rstrip_chars '';'' (strip g2))))"
  using assms
proof (induction xs arbitrary: st)
  case Nil
  then show ?case by simp
next
  case (Cons x xs)
  from Cons.IH [of "scan_line fname lines st x"] Cons.prems
  consider "d \<in> set (declarations (scan_line fname lines st x))"
    | "\<exists>y \<in> set xs. line_number d = fst y \<and>
            (\<exists>g1 g2. search_important (snd y) = Some (g1, g2) \<and> property d = strip g1 \<and>
                     value_text d = strip (rstrip_chars '';'' (strip g2)))"
    by auto
  then show ?case
  proof cases
    case 1
    then show ?thesis
      using extract_declaration_origin
        [of d fname lines "fst x" "snd x" "track_selector lines (fst x) (snd x) st"]
      by (auto simp: scan_line_def)
  next
    case 2
    then show ?thesis by auto
  qed
qed

text \<open>Every record comes from a line on which the pattern matches, and its property and
  value are computed from the two groups of that match.\<close>

lemma record_origin:
  assumes "d \<in> set (parse_css_file fname content)"
  shows "\<exists>g1 g2 ws n.
           1 \<le> line_number d \<and> nat (line_number d) \<le> length (split_nl content) \<and>
           search_important (split_nl content ! (nat (line_number d) - 1)) = Some (g1, g2) \<and>
           value_text d = strip (rstrip_chars '';'' (strip g2)) \<and>
           strip g2 = value_text d @ ws @ replicate n CHR '';'' \<and>
           list_all is_space ws \<and> \<not> endswith '';'' (value_text d @ ws)"
proof -
  let ?lines = "split_nl content"
  from assms scan_origin [of d fname ?lines initial_state "enumerate1 ?lines"]
  obtain x g1 g2 where x: "x \<in> set (enumerate1 ?lines)" "line_number d = fst x"
    and g: "search_important (snd x) = Some (g1, g2)"
           "value_text d = strip (rstrip_chars '';'' (strip g2))"
    by (auto simp: parse_css_file_def Let_def initial_state_def)
  have m: "1 \<le> line_number d \<and> nat (line_number d) \<le> length ?lines \<and>
           snd x = ?lines ! (nat (line_number d) - 1)"
    using enumerate1_mem [of "fst x" "snd x" ?lines] x by simp
  obtain ws n where "strip g2 = value_text d @ ws @ replicate n CHR '';''"
    "list_all is_space ws" "\<not> endswith '';'' (value_text d @ ws)"
    using value_shape [of g2] g(2) by auto
  then show ?thesis using m g by auto
qed

subsection \<open>Rules the scan does attribute\<close>

text \<open>A rule whose braces and declaration stand on lines of their own keeps its
  selector, and the selector on a line of its own is recovered when it is not the first
  line of the file.\<close>

lemma multi_line_rule_keeps_selector:
  "map (\<lambda>d. (line_number d, selector d, category d))
     (parse_css_file ''a.css''
        (''.rt-selected {'' @ [CHR 0x0A] @ ''  color: red !important;'' @ [CHR 0x0A] @ ''}''))
   = [(2, ''.rt-selected'', ''4_selection_states'')]"
  by code_simp

lemma brace_on_third_line_recovers_selector:
  "map (\<lambda>d. (line_number d, selector d, category d))
     (parse_css_file ''a.css''
        ([CHR 0x0A] @ ''.modal-content'' @ [CHR 0x0A] @ ''{'' @ [CHR 0x0A] @
         ''  padding: 0 !important;'' @ [CHR 0x0A] @ ''}''))
   = [(4, ''.modal-content'', ''1_obsidian_resets'')]"
  by code_simp

subsection \<open>List accesses stay within bounds\<close>

text \<open>
  Python raises an error for an index past the end of a list and counts a negative index
  from the end. Neither happens in the scan: every index the two backward scans read is
  positive and below the number of lines, and a match of the pattern has one text for
  each of its fifteen items, of which the groups are the first and the fifth.
\<close>

lemma first_some_SomeD: "first_some f xs = Some r \<Longrightarrow> \<exists>x \<in> set xs. f x = Some r"
  by (induction xs) (auto split: option.splits)

lemma rx_match_length: "rx_match its s = Some gs \<Longrightarrow> length gs = length its"
proof (induction its arbitrary: s gs)
  case Nil
  then show ?case by simp
next
  case (Cons it its)
  from Cons.prems obtain k gs' where "rx_match its (drop k s) = Some gs'" "gs = take k s # gs'"
    by (auto dest!: first_some_SomeD)
  then show ?case using Cons.IH by auto
qed

lemma rx_search_length: "rx_search its s = Some gs \<Longrightarrow> length gs = length its"
  by (induction its s rule: rx_search.induct) (auto simp: rx_match_length split: option.splits)

lemma search_important_groups:
  "rx_search important_pattern line = Some gs \<Longrightarrow> length gs = 15"
  by (drule rx_search_length) (simp add: important_pattern_def)

lemma backward_scan_in_bounds:
  assumes "(line_num, line) \<in> set (enumerate1 lines)"
    and "back_line \<in> set (range_down (line_num - 2) (max 0 (line_num - k)))"
  shows "0 < back_line \<and> nat back_line < length lines"
proof -
  have "1 \<le> line_num \<and> nat line_num \<le> length lines"
    using enumerate1_mem [OF assms(1)] by simp
  then show ?thesis using assms(2) by (auto simp: range_down_def)
qed

subsection \<open>The shape of a match\<close>

text \<open>A match of the pattern splits the line: every item consumes characters of its
  class, as many as its quantifier admits, and the texts follow one another.\<close>

lemma repetitions_mem:
  "k \<in> set (repetitions q n) \<Longrightarrow> k \<le> n \<and> (q \<noteq> Star \<longrightarrow> 1 \<le> k) \<and> (q = Once \<longrightarrow> k = 1)"
  by (cases q) (auto split: if_splits)

lemma take_le_takeWhile:
  "k \<le> length (takeWhile P s) \<Longrightarrow> \<forall>c \<in> set (take k s). P c"
proof -
  assume k: "k \<le> length (takeWhile P s)"
  have "take k s = take k (takeWhile P s @ dropWhile P s)" by simp
  also have "\<dots> = take k (takeWhile P s)" using k by (simp del: takeWhile_dropWhile_id)
  finally have "set (take k s) \<subseteq> set (takeWhile P s)" by (metis set_take_subset)
  then show ?thesis by (auto dest: set_takeWhileD)
qed

lemma rx_match_sound:
  "rx_match its s = Some gs \<Longrightarrow>
   (\<exists>post. s = concat gs @ post) \<and>
   list_all2 (\<lambda>it g. (\<forall>c \<in> set g. fst it c) \<and> (snd it \<noteq> Star \<longrightarrow> g \<noteq> []) \<and>
                     (snd it = Once \<longrightarrow> length g = 1)) its gs"
proof (induction its arbitrary: s gs)
  case Nil
  then show ?case by simp
next
  case (Cons it its)
  let ?n = "length (takeWhile (fst it) s)"
  from Cons.prems obtain k gs' where k: "k \<in> set (repetitions (snd it) ?n)"
    and m: "rx_match its (drop k s) = Some gs'" and gs: "gs = take k s # gs'"
    by (auto dest!: first_some_SomeD)
  from repetitions_mem [OF k]
  have kn: "k \<le> ?n" and k1: "snd it \<noteq> Star \<longrightarrow> 1 \<le> k" and ko: "snd it = Once \<longrightarrow> k = 1"
    by auto
  have kl: "k \<le> length s" using kn length_takeWhile_le [of "fst it" s] by linarith
  have chars: "\<forall>c \<in> set (take k s). fst it c" using kn by (rule take_le_takeWhile)
  from Cons.IH [OF m] obtain post where post: "drop k s = concat gs' @ post"
    and rest: "list_all2 (\<lambda>it g. (\<forall>c \<in> set g. fst it c) \<and> (snd it \<noteq> Star \<longrightarrow> g \<noteq> []) \<and>
                     (snd it = Once \<longrightarrow> length g = 1)) its gs'"
    by blast
  have "s = concat gs @ post"
    using post gs by (metis append_take_drop_id concat.simps(2) append_assoc)
  moreover have "take k s \<noteq> []" if "snd it \<noteq> Star"
    using that k1 kl by (cases s) auto
  moreover have "length (take k s) = 1" if "snd it = Once"
    using that ko kl by simp
  ultimately show ?case using chars rest gs by auto
qed

lemma rx_search_sound:
  "rx_search its s = Some gs \<Longrightarrow> \<exists>pre suf. s = pre @ suf \<and> rx_match its suf = Some gs"
proof (induction its s rule: rx_search.induct)
  case (1 its)
  then show ?case by simp
next
  case (2 its c cs)
  show ?case
  proof (cases "rx_match its (c # cs)")
    case None
    with 2 obtain pre suf where "cs = pre @ suf" "rx_match its suf = Some gs" by auto
    then have "c # cs = (c # pre) @ suf \<and> rx_match its suf = Some gs" by simp
    then show ?thesis by blast
  next
    case (Some a)
    with 2 have "c # cs = [] @ (c # cs) \<and> rx_match its (c # cs) = Some gs" by simp
    then show ?thesis by blast
  qed
qed

lemma literal_items:
  "list_all2 (\<lambda>it g. (\<forall>c \<in> set g. fst it c) \<and> (snd it \<noteq> Star \<longrightarrow> g \<noteq> []) \<and>
                     (snd it = Once \<longrightarrow> length g = 1))
     (map (\<lambda>p. (lit_ignorecase p, Once)) ps) gs \<Longrightarrow>
   map ascii_lower (concat gs) = map ascii_lower ps"
proof (induction ps arbitrary: gs)
  case Nil
  then show ?case by simp
next
  case (Cons p ps)
  then obtain g gs' where gs: "gs = g # gs'" and g: "\<forall>c \<in> set g. lit_ignorecase p c" "length g = 1"
    and rest: "list_all2 (\<lambda>it g. (\<forall>c \<in> set g. fst it c) \<and> (snd it \<noteq> Star \<longrightarrow> g \<noteq> []) \<and>
                     (snd it = Once \<longrightarrow> length g = 1))
     (map (\<lambda>p. (lit_ignorecase p, Once)) ps) gs'"
    by (auto simp: list_all2_Cons1)
  from g obtain c where "g = [c]" "ascii_lower c = ascii_lower p"
    by (cases g) (auto simp: lit_ignorecase_def)
  then show ?case using Cons.IH [OF rest] gs by simp
qed

lemma marker_lower: "map ascii_lower ''!important'' = ''!important''"
  by (simp add: ascii_lower_def)

lemma important_match_shape:
  assumes "search_important line = Some (g1, g2)"
  shows "\<exists>pre s1 s2 mk post.
           line = pre @ g1 @ s1 @ '':'' @ s2 @ g2 @ mk @ post \<and>
           g1 \<noteq> [] \<and> list_all is_prop_char g1 \<and> list_all is_space s1 \<and> list_all is_space s2 \<and>
           g2 \<noteq> [] \<and> map ascii_lower mk = ''!important''"
proof -
  from assms obtain gs where s: "rx_search important_pattern line = Some gs"
    and g: "g1 = gs ! 0" "g2 = gs ! 4"
    by (auto simp: search_important_def)
  from rx_search_sound [OF s] obtain pre suf where pre: "line = pre @ suf"
    and m: "rx_match important_pattern suf = Some gs" by blast
  let ?P = "\<lambda>it g. (\<forall>c \<in> set g. fst it c) \<and> (snd it \<noteq> Star \<longrightarrow> g \<noteq> []) \<and>
                     (snd it = Once \<longrightarrow> length g = 1)"
  from rx_match_sound [OF m] obtain post where post: "suf = concat gs @ post"
    and all: "list_all2 ?P important_pattern gs" by blast
  from all obtain us vs where gs: "gs = us @ vs"
    and us: "list_all2 ?P [(is_prop_char, Plus), (is_space, Star), (\<lambda>c. c = CHR '':'', Once),
                          (is_space, Star), (is_dot, PlusLazy)] us"
    and vs: "list_all2 ?P (map (\<lambda>p. (lit_ignorecase p, Once)) ''!important'') vs"
    using all [unfolded important_pattern_def list_all2_append1] by blast
  from us obtain a s1 c s2 b where us5: "us = [a, s1, c, s2, b]"
    and a: "a \<noteq> []" "\<forall>x \<in> set a. is_prop_char x"
    and s1: "\<forall>x \<in> set s1. is_space x" and c: "\<forall>x \<in> set c. x = CHR '':''" "length c = 1"
    and s2: "\<forall>x \<in> set s2. is_space x" and b: "b \<noteq> []"
    by (auto simp: list_all2_Cons1)
  from c have c1: "c = '':''" by (cases c) auto
  have mk: "map ascii_lower (concat vs) = ''!important''"
    using literal_items [OF vs] marker_lower by simp
  have ga: "g1 = a" and gb: "g2 = b" using g gs us5 by simp_all
  have L: "line = pre @ g1 @ s1 @ '':'' @ s2 @ g2 @ concat vs @ post"
    using pre post gs us5 c1 ga gb by simp
  have g1: "g1 \<noteq> []" "\<forall>x \<in> set g1. is_prop_char x" using a ga by simp_all
  have g2: "g2 \<noteq> []" using b gb by simp
  have "line = pre @ g1 @ s1 @ '':'' @ s2 @ g2 @ concat vs @ post \<and>
        g1 \<noteq> [] \<and> list_all is_prop_char g1 \<and> list_all is_space s1 \<and> list_all is_space s2 \<and>
        g2 \<noteq> [] \<and> map ascii_lower (concat vs) = ''!important''"
    unfolding list_all_iff using L g1 s1 s2 g2 mk by (intro conjI)
  then show ?thesis by - ((rule exI)+, assumption)
qed

subsection \<open>The record of a matching line\<close>

lemma extract_declaration_forward:
  assumes "str_in ''!important'' line" and "search_important line = Some (g1, g2)"
  shows "\<exists>d. declarations (extract_declaration fname lines line_num line st) = declarations st @ [d]
            \<and> line_number d = line_num \<and> property d = strip g1
            \<and> value_text d = strip (rstrip_chars '';'' (strip g2))"
  using assms by (simp add: extract_declaration_def Let_def)

lemma scan_line_forward:
  assumes "str_in ''!important'' (snd x)" and "search_important (snd x) = Some (g1, g2)"
  shows "\<exists>d \<in> set (declarations (scan_line fname lines st x)).
            line_number d = fst x \<and> property d = strip g1
            \<and> value_text d = strip (rstrip_chars '';'' (strip g2))"
  using extract_declaration_forward
    [OF assms, of fname lines "fst x" "track_selector lines (fst x) (snd x) st"]
  by (auto simp: scan_line_def)

lemma scan_line_mono:
  "set (declarations st) \<subseteq> set (declarations (scan_line fname lines st x))"
  using scan_line_cases [of fname lines st x] by auto

lemma scan_mono:
  "set (declarations st) \<subseteq> set (declarations (foldl (scan_line fname lines) st xs))"
proof (induction xs arbitrary: st)
  case Nil
  then show ?case by simp
next
  case (Cons x xs)
  show ?case using scan_line_mono [of st fname lines x] Cons.IH [of "scan_line fname lines st x"]
    by auto
qed

lemma scan_forward:
  assumes "x \<in> set xs" and "str_in ''!important'' (snd x)"
    and "search_important (snd x) = Some (g1, g2)"
  shows "\<exists>d \<in> set (declarations (foldl (scan_line fname lines) st xs)).
            line_number d = fst x \<and> property d = strip g1
            \<and> value_text d = strip (rstrip_chars '';'' (strip g2))"
  using assms(1)
proof (induction xs arbitrary: st)
  case Nil
  then show ?case by simp
next
  case (Cons y ys)
  show ?case
  proof (cases "x = y")
    case True
    from scan_line_forward [OF assms(2,3), of fname lines st]
    obtain d where d: "d \<in> set (declarations (scan_line fname lines st x))"
      "line_number d = fst x" "property d = strip g1"
      "value_text d = strip (rstrip_chars '';'' (strip g2))" by blast
    have "d \<in> set (declarations (foldl (scan_line fname lines) st (y # ys)))"
      using d(1) True scan_mono [of "scan_line fname lines st y" fname lines ys] by auto
    then show ?thesis using d(2-4) by blast
  next
    case False
    then have "x \<in> set ys" using Cons.prems by simp
    from Cons.IH [OF this, of "scan_line fname lines st y"] show ?thesis by simp
  qed
qed

lemma enumerate1_nth_mem: "i < length xs \<Longrightarrow> (int i + 1, xs ! i) \<in> set (enumerate1 xs)"
proof -
  assume i: "i < length xs"
  have "map int [1 ..< Suc (length xs)] ! i = int i + 1" using i by (simp del: upt_Suc)
  then show ?thesis
    using i unfolding enumerate1_def in_set_zip
    by (intro exI [of _ i]) (simp del: upt_Suc)
qed

lemma filter_key_single:
  "distinct (map f xs) \<Longrightarrow> d \<in> set xs \<Longrightarrow> filter (\<lambda>x. f x = f d) xs = [d]"
proof (induction xs)
  case Nil
  then show ?case by simp
next
  case (Cons x xs)
  show ?case
  proof (cases "x = d")
    case True
    then have "f d \<notin> f ` set xs" using Cons.prems(1) by simp
    then have "\<forall>x \<in> set xs. f x \<noteq> f d" by (metis imageI)
    then have "filter (\<lambda>x. f x = f d) xs = []" by (simp add: filter_empty_conv)
    then show ?thesis using True by simp
  next
    case False
    then have d: "d \<in> set xs" using Cons.prems(2) by simp
    then have "f x \<noteq> f d" using Cons.prems(1) by auto
    then show ?thesis using Cons.IH d Cons.prems(1) by simp
  qed
qed

lemma parse_distinct: "distinct (map line_number (parse_css_file fname content))"
  using parse_sorted strict_sorted_iff by blast

text \<open>
  Claim C5, as amended. When a line that contains the marker \<^verbatim>\<open>!important\<close> matches the
  pattern, the scan yields exactly one record for that line. Its value is the matched value
  text trimmed, then with every trailing \<^verbatim>\<open>;\<close> removed (any number of them, not at most
  one), then trimmed again: the trimmed value text is the value, followed by whitespace,
  followed by \<open>n\<close> terminators, and what precedes these terminators does not end with a
  terminator. The matched value text is the non-empty part of the line between the colon
  with the whitespace after it and the marker that closes the match, read without regard
  to case; that marker is not part of it.
\<close>

theorem value_strips_all_terminators:
  assumes "i < length (split_nl content)"
    and "str_in ''!important'' (split_nl content ! i)"
    and "search_important (split_nl content ! i) = Some (g1, g2)"
  shows "\<exists>d ws n pre s1 s2 mk post.
           filter (\<lambda>d. line_number d = int i + 1) (parse_css_file fname content) = [d] \<and>
           property d = strip g1 \<and>
           value_text d = strip (rstrip_chars '';'' (strip g2)) \<and>
           strip g2 = value_text d @ ws @ replicate n CHR '';'' \<and>
           list_all is_space ws \<and> \<not> endswith '';'' (value_text d @ ws) \<and>
           split_nl content ! i = pre @ g1 @ s1 @ '':'' @ s2 @ g2 @ mk @ post \<and>
           list_all is_space s1 \<and> list_all is_space s2 \<and> g2 \<noteq> [] \<and>
           map ascii_lower mk = ''!important''"
proof -
  let ?lines = "split_nl content"
  let ?x = "(int i + 1, ?lines ! i)"
  have x: "?x \<in> set (enumerate1 ?lines)" using assms(1) by (rule enumerate1_nth_mem)
  from scan_forward [OF x, of g1 g2 fname ?lines initial_state] assms(2,3)
  obtain d where d: "d \<in> set (parse_css_file fname content)" "line_number d = int i + 1"
    "property d = strip g1" "value_text d = strip (rstrip_chars '';'' (strip g2))"
    by (auto simp: parse_css_file_def Let_def)
  have "filter (\<lambda>e. line_number e = line_number d) (parse_css_file fname content) = [d]"
    using parse_distinct d(1) by (rule filter_key_single)
  then have one: "filter (\<lambda>d. line_number d = int i + 1) (parse_css_file fname content) = [d]"
    by (simp only: d(2))
  obtain ws n where v: "strip g2 = value_text d @ ws @ replicate n CHR '';''"
    "list_all is_space ws" "\<not> endswith '';'' (value_text d @ ws)"
    using value_shape [of g2] d(4) by auto
  from important_match_shape [OF assms(3)]
  obtain pre s1 s2 mk post where
    sh: "split_nl content ! i = pre @ g1 @ s1 @ '':'' @ s2 @ g2 @ mk @ post"
    "g1 \<noteq> []" "list_all is_prop_char g1"
    "list_all is_space s1" "list_all is_space s2" "g2 \<noteq> []"
    "map ascii_lower mk = ''!important''"
    by (elim exE conjE) (rule that)
  have "filter (\<lambda>d. line_number d = int i + 1) (parse_css_file fname content) = [d] \<and>
           property d = strip g1 \<and>
           value_text d = strip (rstrip_chars '';'' (strip g2)) \<and>
           strip g2 = value_text d @ ws @ replicate n CHR '';'' \<and>
           list_all is_space ws \<and> \<not> endswith '';'' (value_text d @ ws) \<and>
           split_nl content ! i = pre @ g1 @ s1 @ '':'' @ s2 @ g2 @ mk @ post \<and>
           list_all is_space s1 \<and> list_all is_space s2 \<and> g2 \<noteq> [] \<and>
           map ascii_lower mk = ''!important''"
    using one d(3,4) v sh(1,4-7) by (intro conjI)
  then show ?thesis by - ((rule exI)+, assumption)
qed

theorem value_strips_all_terminators_witness:
  "0 < length (split_nl ''color: red;;!important'') \<and>
   str_in ''!important'' (split_nl ''color: red;;!important'' ! 0) \<and>
   search_important (split_nl ''color: red;;!important'' ! 0) = Some (''color'', ''red;;'') \<and>
   (\<exists>d ws n pre s1 s2 mk post.
           filter (\<lambda>d. line_number d = int 0 + 1)
             (parse_css_file ''a.css'' ''color: red;;!important'') = [d] \<and>
           property d = strip ''color'' \<and>
           value_text d = strip (rstrip_chars '';'' (strip ''red;;'')) \<and>
           strip ''red;;'' = value_text d @ ws @ replicate n CHR '';'' \<and>
           list_all is_space ws \<and> \<not> endswith '';'' (value_text d @ ws) \<and>
           split_nl ''color: red;;!important'' ! 0 =
             pre @ ''color'' @ s1 @ '':'' @ s2 @ ''red;;'' @ mk @ post \<and>
           list_all is_space s1 \<and> list_all is_space s2 \<and> ''red;;'' \<noteq> [] \<and>
           map ascii_lower mk = ''!important'')"
proof -
  have a: "0 < length (split_nl ''color: red;;!important'')" by code_simp
  have b: "str_in ''!important'' (split_nl ''color: red;;!important'' ! 0)" by code_simp
  have c: "search_important (split_nl ''color: red;;!important'' ! 0) = Some (''color'', ''red;;'')"
    by code_simp
  show ?thesis
    by (rule conjI [OF a conjI [OF b conjI [OF c
          value_strips_all_terminators [OF a b c, of "''a.css''"]]]])
qed

text \<open>
  Claim C5 as stated fails: on the line \<^verbatim>\<open>color: red;;!important\<close> the matched value text
  is \<open>red;;\<close>; removing a single terminator would leave \<open>red;\<close>, and the record's value
  is \<open>red\<close>.
\<close>

theorem value_single_terminator_counterexample:
  "search_important ''color: red;;!important'' = Some (''color'', ''red;;'') \<and>
   map value_text (parse_css_file ''a.css'' ''color: red;;!important'') = [''red''] \<and>
   spec_strip_one_terminator ''red;;'' = ''red;'' \<and>
   map value_text (parse_css_file ''a.css'' ''color: red;;!important'')
     \<noteq> [spec_strip_one_terminator ''red;;'']"
  by code_simp

text \<open>The closing marker is not part of the value text, but an earlier copy of the
  marker text can be; and the pattern accepts a marker in capitals, which the test
  \<^verbatim>\<open>'!important' in line\<close> does not, so such a line yields no record.\<close>

lemma value_text_may_hold_marker_text:
  "search_important ''a:!important!important'' = Some (''a'', ''!important'') \<and>
   map value_text (parse_css_file ''a.css'' ''a:!important!important'') = [''!important'']"
  by code_simp

lemma uppercase_marker_alone_yields_no_record:
  "search_important ''a: b !IMPORTANT'' = Some (''a'', ''b '') \<and>
   parse_css_file ''a.css'' ''a: b !IMPORTANT'' = []"
  by code_simp

end
